theory Spec2Isabelle
  imports Main
begin

section \<open>Python text operations used by the importer\<close>

text \<open>
  Text is modelled as \<^typ>\<open>string\<close>: a character stands for a code point below 256.
  \<open>isspace\<close> lists the code points below 256 that \<^verbatim>\<open>str.strip()\<close> and \<^verbatim>\<open>int()\<close>
  treat as white space; \<open>lower_char\<close> is \<^verbatim>\<open>str.lower()\<close> on that range.
\<close>

definition isspace :: "char \<Rightarrow> bool" where
  "isspace c = ((of_char c :: nat) \<in> {9, 10, 11, 12, 13, 28, 29, 30, 31, 32, 133, 160})"

definition strip :: "string \<Rightarrow> string" where
  "strip s = rev (dropWhile isspace (rev (dropWhile isspace s)))"

definition lower_char :: "char \<Rightarrow> char" where
  "lower_char c =
     (let n = (of_char c :: nat)
      in if (65 \<le> n \<and> n \<le> 90) \<or> (192 \<le> n \<and> n \<le> 222 \<and> n \<noteq> 215)
         then char_of (n + 32) else c)"

definition lower :: "string \<Rightarrow> string" where
  "lower s = map lower_char s"

definition isdigit :: "char \<Rightarrow> bool" where
  "isdigit c = (48 \<le> (of_char c :: nat) \<and> (of_char c :: nat) \<le> 57)"

text \<open>
  The digits of a base-10 literal as \<^verbatim>\<open>int()\<close> reads them: single underscores are
  allowed between digits, not in front, not at the end and not doubled. The flag
  says whether the previous character was a digit.
\<close>

fun parse_digits :: "bool \<Rightarrow> nat \<Rightarrow> string \<Rightarrow> nat option" where
  "parse_digits prev acc [] = (if prev then Some acc else None)"
| "parse_digits prev acc (c # cs) =
     (if isdigit c then parse_digits True (10 * acc + (of_char c - 48)) cs
      else if c = CHR ''_'' \<and> prev then parse_digits False acc cs
      else None)"

text \<open>\<^verbatim>\<open>int(s)\<close> for a string: \<open>None\<close> is ValueError.\<close>

definition py_int :: "string \<Rightarrow> int option" where
  "py_int s =
     (case strip s of
        [] \<Rightarrow> None
      | c # cs \<Rightarrow>
          if c = CHR ''-'' then map_option (\<lambda>n. - int n) (parse_digits False 0 cs)
          else if c = CHR ''+'' then map_option int (parse_digits False 0 cs)
          else map_option int (parse_digits False 0 (c # cs)))"

section \<open>Errors\<close>

text \<open>
  The exceptions the two handlers can raise: the Python ones from reading a row, the
  store's rejection of a commit, and the HTTP failure of the query.
\<close>

datatype error =
    KeyError string
  | ValueError
  | TypeError
  | AttributeError
  | DBAPIError
  | HTTPException nat

text \<open>The failure classes of the specification, and the class of each exception.\<close>

datatype failure = ValidationError | ImportError | NotFound

fun failure_of :: "error \<Rightarrow> failure" where
  "failure_of (KeyError k) = ValidationError"
| "failure_of ValueError = ValidationError"
| "failure_of TypeError = ValidationError"
| "failure_of AttributeError = ValidationError"
| "failure_of DBAPIError = ImportError"
| "failure_of (HTTPException n) = NotFound"

section \<open>csv.DictReader\<close>

text \<open>
  The input of the importer is the list of records \<^verbatim>\<open>csv.reader\<close> yields for the
  decoded upload, the header line first. \<open>DictReader\<close> takes the first record as the
  field names, skips empty records, and turns every other record into a dictionary:
  a later column of the same name overrides an earlier one, and a column the record
  is too short for holds Python's \<^verbatim>\<open>None\<close> (here \<open>Some None\<close>; a key that is not
  in the dictionary is \<open>None\<close>).
\<close>

type_synonym csv_dict = "string \<rightharpoonup> string option"

definition dict_row :: "string list \<Rightarrow> string list \<Rightarrow> csv_dict" where
  "dict_row fieldnames r =
     map_of (rev (zip fieldnames
       (map Some r @ replicate (length fieldnames - length r) None)))"

fun DictReader :: "string list list \<Rightarrow> csv_dict list" where
  "DictReader [] = []"
| "DictReader (fieldnames # records) =
     map (dict_row fieldnames) (filter (\<lambda>r. r \<noteq> []) records)"

section \<open>Reading one row\<close>

record csv_row =
  biz_id :: int
  biz_name :: string
  sym_code :: string
  sym_name :: string
  diag :: bool

text \<open>\<^verbatim>\<open>int(row[name])\<close>\<close>

definition column_int :: "csv_dict \<Rightarrow> string \<Rightarrow> error + int" where
  "column_int row name =
     (case row name of
        None \<Rightarrow> Inl (KeyError name)
      | Some None \<Rightarrow> Inl TypeError
      | Some (Some s) \<Rightarrow> (case py_int s of None \<Rightarrow> Inl ValueError | Some n \<Rightarrow> Inr n))"

text \<open>\<^verbatim>\<open>row[name].strip()\<close>\<close>

definition column_strip :: "csv_dict \<Rightarrow> string \<Rightarrow> error + string" where
  "column_strip row name =
     (case row name of
        None \<Rightarrow> Inl (KeyError name)
      | Some None \<Rightarrow> Inl AttributeError
      | Some (Some s) \<Rightarrow> Inr (strip s))"

text \<open>\<^verbatim>\<open>stripped.lower() in ("true", "1", "yes")\<close>\<close>

definition truthy :: "string \<Rightarrow> bool" where
  "truthy stripped = (lower stripped \<in> {''true'', ''1'', ''yes''})"

definition parse_row :: "csv_dict \<Rightarrow> error + csv_row" where
  "parse_row row =
     (case column_int row ''Business ID'' of Inl e \<Rightarrow> Inl e | Inr i \<Rightarrow>
      case column_strip row ''Business Name'' of Inl e \<Rightarrow> Inl e | Inr bn \<Rightarrow>
      case column_strip row ''Symptom Code'' of Inl e \<Rightarrow> Inl e | Inr sc \<Rightarrow>
      case column_strip row ''Symptom Name'' of Inl e \<Rightarrow> Inl e | Inr sn \<Rightarrow>
      case column_strip row ''Symptom Diagnostic'' of Inl e \<Rightarrow> Inl e | Inr d \<Rightarrow>
        Inr \<lparr>biz_id = i, biz_name = bn, sym_code = sc, sym_name = sn, diag = truthy d\<rparr>)"

section \<open>The persisted tables\<close>

text \<open>
  A table is the list of its rows in storage order, each row a primary key with the
  other columns. \<open>businesses\<close> maps an id to a name, \<open>symptoms\<close> a code to a name,
  \<open>business_symptoms\<close> the pair of both to the flag and the two timestamps.
\<close>

type_synonym time = nat

record business_symptom =
  diagnostic :: bool
  created_at :: time
  updated_at :: time

record db =
  businesses :: "(int \<times> string) list"
  symptoms :: "(string \<times> string) list"
  business_symptoms :: "((int \<times> string) \<times> business_symptom) list"

section \<open>The ORM session\<close>

text \<open>
  What a session holds for one mapped class, between its creation and the commit.
  \<open>identity_map\<close> has the objects loaded from the table: key, the attribute value as
  loaded, and the current value. \<open>pending\<close> has the objects added and not yet
  inserted. The session factory is created with \<^verbatim>\<open>autoflush=False\<close>, so a pending
  object stays pending until the commit and is in neither the identity map nor the
  table.

  \<open>merge\<close> is \<^verbatim>\<open>Session.merge\<close> for an object with key \<open>k\<close> whose only set
  attribute is \<open>v\<close>: an object of that key in the identity map takes the value;
  otherwise the row is loaded by key (\<open>load\<close>) and takes the value; otherwise a new
  pending object is added.
\<close>

record ('k, 'v) unit_of_work =
  identity_map :: "('k \<times> 'v \<times> 'v) list"
  pending :: "('k \<times> 'v) list"

definition set_value :: "'k \<Rightarrow> 'v \<Rightarrow> ('k \<times> 'v \<times> 'v) list \<Rightarrow> ('k \<times> 'v \<times> 'v) list" where
  "set_value k v objs = map (\<lambda>(k', c, v'). if k' = k then (k', c, v) else (k', c, v')) objs"

definition merge :: "('k \<rightharpoonup> 'v) \<Rightarrow> 'k \<Rightarrow> 'v \<Rightarrow> ('k, 'v) unit_of_work \<Rightarrow> ('k, 'v) unit_of_work" where
  "merge load k v u =
     (case map_of (identity_map u) k of
        Some _ \<Rightarrow> u\<lparr>identity_map := set_value k v (identity_map u)\<rparr>
      | None \<Rightarrow>
          (case load k of
             Some c \<Rightarrow> u\<lparr>identity_map := identity_map u @ [(k, c, v)]\<rparr>
           | None \<Rightarrow> u\<lparr>pending := pending u @ [(k, v)]\<rparr>))"

record session =
  business_objs :: "(int, string) unit_of_work"
  symptom_objs :: "(string, string) unit_of_work"
  link_objs :: "(int \<times> string, bool) unit_of_work"

definition SessionLocal :: session where
  "SessionLocal =
     \<lparr>business_objs = \<lparr>identity_map = [], pending = []\<rparr>,
      symptom_objs = \<lparr>identity_map = [], pending = []\<rparr>,
      link_objs = \<lparr>identity_map = [], pending = []\<rparr>\<rparr>"

definition merge_Business :: "db \<Rightarrow> int \<Rightarrow> string \<Rightarrow> session \<Rightarrow> session" where
  "merge_Business d i n s =
     s\<lparr>business_objs := merge (map_of (businesses d)) i n (business_objs s)\<rparr>"

definition merge_Symptom :: "db \<Rightarrow> string \<Rightarrow> string \<Rightarrow> session \<Rightarrow> session" where
  "merge_Symptom d c n s =
     s\<lparr>symptom_objs := merge (map_of (symptoms d)) c n (symptom_objs s)\<rparr>"

definition merge_BusinessSymptom :: "db \<Rightarrow> int \<Rightarrow> string \<Rightarrow> bool \<Rightarrow> session \<Rightarrow> session" where
  "merge_BusinessSymptom d i c g s =
     s\<lparr>link_objs :=
         merge (\<lambda>k. map_option diagnostic (map_of (business_symptoms d) k)) (i, c) g (link_objs s)\<rparr>"

section \<open>Commit\<close>

text \<open>
  The flush of one class: an UPDATE for every loaded object whose value differs from
  the loaded one, then an INSERT for every pending object. \<open>ok\<close> is the store's
  check of the column values (width, range), a parameter of the model; an INSERT
  of a key the table has is refused. The first refusal ends the flush.
\<close>

definition sql_update :: "'k \<Rightarrow> ('r \<Rightarrow> 'r) \<Rightarrow> ('k \<times> 'r) list \<Rightarrow> ('k \<times> 'r) list" where
  "sql_update k f t = map (\<lambda>(k', r). if k' = k then (k', f r) else (k', r)) t"

definition dirty :: "('k \<times> 'v \<times> 'v) list \<Rightarrow> ('k \<times> 'v) list" where
  "dirty objs = map (\<lambda>(k, c, v). (k, v)) (filter (\<lambda>(k, c, v). c \<noteq> v) objs)"

fun run_updates ::
  "('k \<Rightarrow> 'v \<Rightarrow> bool) \<Rightarrow> ('v \<Rightarrow> 'r \<Rightarrow> 'r) \<Rightarrow> ('k \<times> 'v) list \<Rightarrow> ('k \<times> 'r) list \<Rightarrow> error + ('k \<times> 'r) list" where
  "run_updates ok upd [] t = Inr t"
| "run_updates ok upd ((k, v) # us) t =
     (if \<not> ok k v then Inl DBAPIError
      else run_updates ok upd us (sql_update k (upd v) t))"

fun run_inserts ::
  "('k \<Rightarrow> 'v \<Rightarrow> bool) \<Rightarrow> ('v \<Rightarrow> 'r) \<Rightarrow> ('k \<times> 'v) list \<Rightarrow> ('k \<times> 'r) list \<Rightarrow> error + ('k \<times> 'r) list" where
  "run_inserts ok ins [] t = Inr t"
| "run_inserts ok ins ((k, v) # ps) t =
     (if \<not> ok k v then Inl DBAPIError
      else if k \<in> fst ` set t then Inl DBAPIError
      else run_inserts ok ins ps (t @ [(k, ins v)]))"

definition flush ::
  "('k \<Rightarrow> 'v \<Rightarrow> bool) \<Rightarrow> ('v \<Rightarrow> 'r \<Rightarrow> 'r) \<Rightarrow> ('v \<Rightarrow> 'r) \<Rightarrow> ('k, 'v) unit_of_work \<Rightarrow> ('k \<times> 'r) list
     \<Rightarrow> error + ('k \<times> 'r) list" where
  "flush ok upd ins u t =
     (case run_updates ok upd (dirty (identity_map u)) t of
        Inl e \<Rightarrow> Inl e
      | Inr t' \<Rightarrow> run_inserts ok ins (pending u) t')"

record engine =
  business_ok :: "int \<Rightarrow> string \<Rightarrow> bool"
  symptom_ok :: "string \<Rightarrow> string \<Rightarrow> bool"
  link_ok :: "int \<times> string \<Rightarrow> bool \<Rightarrow> bool"

text \<open>
  \<^verbatim>\<open>db.commit()\<close> at clock reading \<open>now\<close>: the parent tables are flushed before the
  link table. An inserted link row gets both timestamps from the column defaults,
  an updated one a new \<open>updated_at\<close>. A refusal leaves no table written: \<open>Inl\<close>
  carries no state, and the caller keeps the tables it had.
\<close>

definition commit :: "engine \<Rightarrow> time \<Rightarrow> session \<Rightarrow> db \<Rightarrow> error + db" where
  "commit eng now s d =
     (case flush (business_ok eng) (\<lambda>v r. v) (\<lambda>v. v) (business_objs s) (businesses d) of
        Inl e \<Rightarrow> Inl e
      | Inr bs \<Rightarrow>
     (case flush (symptom_ok eng) (\<lambda>v r. v) (\<lambda>v. v) (symptom_objs s) (symptoms d) of
        Inl e \<Rightarrow> Inl e
      | Inr ss \<Rightarrow>
     (case flush (link_ok eng)
             (\<lambda>v r. r\<lparr>diagnostic := v, updated_at := now\<rparr>)
             (\<lambda>v. \<lparr>diagnostic = v, created_at = now, updated_at = now\<rparr>)
             (link_objs s) (business_symptoms d) of
        Inl e \<Rightarrow> Inl e
      | Inr ls \<Rightarrow> Inr \<lparr>businesses = bs, symptoms = ss, business_symptoms = ls\<rparr>)))"

section \<open>POST /import-business-symptoms\<close>

record import_state =
  session_of :: session
  seen_businesses :: "int set"
  seen_symptoms :: "string set"
  row_count :: nat

definition import_start :: import_state where
  "import_start =
     \<lparr>session_of = SessionLocal, seen_businesses = {}, seen_symptoms = {}, row_count = 0\<rparr>"

text \<open>The three upserts of the loop body, for a row that has been read.\<close>

definition upsert_business :: "db \<Rightarrow> csv_row \<Rightarrow> import_state \<Rightarrow> import_state" where
  "upsert_business d r st =
     (if biz_id r \<notin> seen_businesses st
      then st\<lparr>session_of := merge_Business d (biz_id r) (biz_name r) (session_of st),
              seen_businesses := insert (biz_id r) (seen_businesses st)\<rparr>
      else st)"

definition upsert_symptom :: "db \<Rightarrow> csv_row \<Rightarrow> import_state \<Rightarrow> import_state" where
  "upsert_symptom d r st =
     (if sym_code r \<notin> seen_symptoms st
      then st\<lparr>session_of := merge_Symptom d (sym_code r) (sym_name r) (session_of st),
              seen_symptoms := insert (sym_code r) (seen_symptoms st)\<rparr>
      else st)"

definition upsert_link :: "db \<Rightarrow> csv_row \<Rightarrow> import_state \<Rightarrow> import_state" where
  "upsert_link d r st =
     st\<lparr>session_of := merge_BusinessSymptom d (biz_id r) (sym_code r) (diag r) (session_of st)\<rparr>"

definition import_row :: "db \<Rightarrow> csv_dict \<Rightarrow> import_state \<Rightarrow> error + import_state" where
  "import_row d row st =
     (case parse_row row of
        Inl e \<Rightarrow> Inl e
      | Inr r \<Rightarrow>
          Inr (upsert_link d r (upsert_symptom d r (upsert_business d r
                 (st\<lparr>row_count := row_count st + 1\<rparr>)))))"

fun import_loop :: "db \<Rightarrow> csv_dict list \<Rightarrow> import_state \<Rightarrow> error + import_state" where
  "import_loop d [] st = Inr st"
| "import_loop d (row # rows) st =
     (case import_row d row st of
        Inl e \<Rightarrow> Inl e
      | Inr st' \<Rightarrow> import_loop d rows st')"

record import_response =
  status :: string
  rows_processed :: nat

text \<open>
  The handler: the result and the tables after the request. An exception leaves the
  tables as they were, since nothing is written before the commit and the session is
  closed without one.
\<close>

definition import_business_symptoms ::
  "engine \<Rightarrow> time \<Rightarrow> string list list \<Rightarrow> db \<Rightarrow> (error + import_response) \<times> db" where
  "import_business_symptoms eng now file d =
     (case import_loop d (DictReader file) import_start of
        Inl e \<Rightarrow> (Inl e, d)
      | Inr st \<Rightarrow>
          (case commit eng now (session_of st) d of
             Inl e \<Rightarrow> (Inl e, d)
           | Inr d' \<Rightarrow>
               (Inr \<lparr>status = ''import complete'', rows_processed = row_count st\<rparr>, d')))"

section \<open>GET /business-symptoms\<close>

record business_symptom_out =
  business_id :: int
  business_name :: string
  symptom_code :: string
  symptom_name :: string
  out_diagnostic :: bool

text \<open>
  The inner join of the link table with both parent tables, in the order of the link
  table: a link row whose business or symptom is missing is not in the join.
\<close>

definition joined :: "db \<Rightarrow> business_symptom_out list" where
  "joined d =
     List.map_filter
       (\<lambda>((i, c), r).
          case map_of (businesses d) i of
            None \<Rightarrow> None
          | Some bn \<Rightarrow>
              (case map_of (symptoms d) c of
                 None \<Rightarrow> None
               | Some sn \<Rightarrow>
                   Some \<lparr>business_id = i, business_name = bn, symptom_code = c,
                         symptom_name = sn, out_diagnostic = diagnostic r\<rparr>))
       (business_symptoms d)"

definition read_business_symptoms ::
  "int option \<Rightarrow> bool option \<Rightarrow> db \<Rightarrow> error + business_symptom_out list" where
  "read_business_symptoms business_id_filter diagnostic_filter d =
     (let query = joined d;
          query = (case business_id_filter of
                     None \<Rightarrow> query
                   | Some b \<Rightarrow> filter (\<lambda>bs. business_id bs = b) query);
          query = (case diagnostic_filter of
                     None \<Rightarrow> query
                   | Some g \<Rightarrow> filter (\<lambda>bs. out_diagnostic bs = g) query);
          results = query
      in if results = [] then Inl (HTTPException 404) else Inr results)"

section \<open>Vocabulary of the specification\<close>

text \<open>The header the importer expects.\<close>

definition expected_columns :: "string list" where
  "expected_columns =
     [''Business ID'', ''Business Name'', ''Symptom Code'', ''Symptom Name'', ''Symptom Diagnostic'']"

text \<open>
  Comparison ignoring case, written without \<open>lower\<close>: two characters are the same
  letter when they are equal or one is an upper-case ASCII letter and the other one
  its lower-case form. \<open>true_word\<close> is the specification's reading of the diagnostic
  indicator.
\<close>

definition same_letter :: "char \<Rightarrow> char \<Rightarrow> bool" where
  "same_letter x y =
     (x = y
      \<or> (65 \<le> (of_char x :: nat) \<and> (of_char x :: nat) \<le> 90 \<and> of_char y = (of_char x :: nat) + 32)
      \<or> (65 \<le> (of_char y :: nat) \<and> (of_char y :: nat) \<le> 90 \<and> of_char x = (of_char y :: nat) + 32))"

definition caseless_eq :: "string \<Rightarrow> string \<Rightarrow> bool" where
  "caseless_eq a b = list_all2 same_letter a b"

definition true_word :: "string \<Rightarrow> bool" where
  "true_word t = (caseless_eq t ''true'' \<or> caseless_eq t ''1'' \<or> caseless_eq t ''yes'')"

text \<open>A lower-case ASCII letter or an ASCII digit.\<close>

definition plain :: "char \<Rightarrow> bool" where
  "plain y =
     ((97 \<le> (of_char y :: nat) \<and> (of_char y :: nat) \<le> 122)
      \<or> (48 \<le> (of_char y :: nat) \<and> (of_char y :: nat) \<le> 57))"

text \<open>The filters of the query, on a link row and on a returned row.\<close>

definition link_matches ::
  "int option \<Rightarrow> bool option \<Rightarrow> (int \<times> string) \<times> business_symptom \<Rightarrow> bool" where
  "link_matches b g l =
     ((case b of None \<Rightarrow> True | Some i \<Rightarrow> fst (fst l) = i) \<and>
      (case g of None \<Rightarrow> True | Some x \<Rightarrow> diagnostic (snd l) = x))"

definition out_matches :: "int option \<Rightarrow> bool option \<Rightarrow> business_symptom_out \<Rightarrow> bool" where
  "out_matches b g x =
     ((case b of None \<Rightarrow> True | Some i \<Rightarrow> business_id x = i) \<and>
      (case g of None \<Rightarrow> True | Some y \<Rightarrow> out_diagnostic x = y))"

text \<open>One link row joined with its parents, if it has both.\<close>

definition join_row :: "db \<Rightarrow> (int \<times> string) \<times> business_symptom \<Rightarrow> business_symptom_out option" where
  "join_row d l =
     (case map_of (businesses d) (fst (fst l)) of
        None \<Rightarrow> None
      | Some bn \<Rightarrow>
          (case map_of (symptoms d) (snd (fst l)) of
             None \<Rightarrow> None
           | Some sn \<Rightarrow>
               Some \<lparr>business_id = fst (fst l), business_name = bn, symptom_code = snd (fst l),
                     symptom_name = sn, out_diagnostic = diagnostic (snd l)\<rparr>))"

text \<open>Referential integrity: every link row has its business and its symptom.\<close>

definition ref_integrity :: "db \<Rightarrow> bool" where
  "ref_integrity d =
     list_all (\<lambda>l. map_of (businesses d) (fst (fst l)) \<noteq> None \<and>
                    map_of (symptoms d) (snd (fst l)) \<noteq> None) (business_symptoms d)"

text \<open>A link row with the names of its business and its symptom.\<close>

definition enrich :: "db \<Rightarrow> (int \<times> string) \<times> business_symptom \<Rightarrow> business_symptom_out" where
  "enrich d l =
     \<lparr>business_id = fst (fst l),
      business_name = the (map_of (businesses d) (fst (fst l))),
      symptom_code = snd (fst l),
      symptom_name = the (map_of (symptoms d) (snd (fst l))),
      out_diagnostic = diagnostic (snd l)\<rparr>"

section \<open>Vocabulary for the session and the commit\<close>

text \<open>
  \<open>stage\<close> is the body of the import loop after the row has been read; \<open>parsed\<close>
  are the rows of an input that can be read, and \<open>batch\<close> those of an upload. A
  link is identified by \<open>link_key\<close>, and \<open>load_link\<close> is what the session loads
  for a link key.
\<close>

definition stage :: "db \<Rightarrow> csv_row \<Rightarrow> import_state \<Rightarrow> import_state" where
  "stage d r st =
     upsert_link d r (upsert_symptom d r (upsert_business d r (st\<lparr>row_count := row_count st + 1\<rparr>)))"

definition parsed :: "csv_dict list \<Rightarrow> csv_row list" where
  "parsed rows =
     List.map_filter (\<lambda>row. case parse_row row of Inl e \<Rightarrow> None | Inr r \<Rightarrow> Some r) rows"

definition batch :: "string list list \<Rightarrow> csv_row list" where
  "batch file = parsed (DictReader file)"

definition link_key :: "csv_row \<Rightarrow> int \<times> string" where
  "link_key r = (biz_id r, sym_code r)"

definition load_link :: "db \<Rightarrow> int \<times> string \<Rightarrow> bool option" where
  "load_link d k = map_option diagnostic (map_of (business_symptoms d) k)"

text \<open>
  \<open>staged u k\<close> is the value the session holds for the key \<open>k\<close>: the current value
  of the loaded object, or else that of the pending object added last.
\<close>

definition staged :: "('k, 'v) unit_of_work \<Rightarrow> 'k \<Rightarrow> 'v option" where
  "staged u k =
     (case map_of (identity_map u) k of
        Some (c, v) \<Rightarrow> Some v
      | None \<Rightarrow> map_of (rev (pending u)) k)"

text \<open>
  A session agrees with the table it was filled from: one loaded object per key,
  each with the value the table has, and no pending object for a key of the table.
\<close>

definition consistent :: "('k \<rightharpoonup> 'v) \<Rightarrow> ('k, 'v) unit_of_work \<Rightarrow> bool" where
  "consistent load u =
     (distinct (map fst (identity_map u)) \<and>
      list_all (\<lambda>(k, c, v). load k = Some c) (identity_map u) \<and>
      list_all (\<lambda>(k, v). load k = None) (pending u))"

text \<open>
  When the flush of one class goes through, and the table it leaves: the store
  accepts every value written, and the pending keys are new and differ from one
  another.
\<close>

definition flushable :: "('k \<Rightarrow> 'v \<Rightarrow> bool) \<Rightarrow> ('k, 'v) unit_of_work \<Rightarrow> ('k \<times> 'r) list \<Rightarrow> bool" where
  "flushable ok u t =
     (list_all (\<lambda>(k, v). ok k v) (dirty (identity_map u)) \<and>
      list_all (\<lambda>(k, v). ok k v) (pending u) \<and>
      distinct (map fst (pending u)) \<and>
      fst ` set (pending u) \<inter> fst ` set t = {})"

definition written ::
  "('v \<Rightarrow> 'r \<Rightarrow> 'r) \<Rightarrow> ('v \<Rightarrow> 'r) \<Rightarrow> ('k, 'v) unit_of_work \<Rightarrow> ('k \<times> 'r) list \<Rightarrow> ('k \<times> 'r) list" where
  "written upd ins u t =
     fold (\<lambda>(k, v). sql_update k (upd v)) (dirty (identity_map u)) t
       @ map (\<lambda>(k, v). (k, ins v)) (pending u)"

section \<open>Sample data\<close>

text \<open>A store that accepts every column value, and one that enforces the declared widths.\<close>

definition accept_all :: engine where
  "accept_all =
     \<lparr>business_ok = (\<lambda>i n. True), symptom_ok = (\<lambda>c n. True), link_ok = (\<lambda>k g. True)\<rparr>"


definition empty_db :: db where
  "empty_db = \<lparr>businesses = [], symptoms = [], business_symptoms = []\<rparr>"

definition two_rows :: "string list list" where
  "two_rows =
     [expected_columns,
      [''1'', ''Acme'', ''SYMPT0001'', ''Fever'', ''true''],
      [''1'', ''Acme Corp'', ''SYMPT0002'', ''Cough'', ''false'']]"

definition acme_db :: db where
  "acme_db =
     \<lparr>businesses = [(1, ''Acme'')],
      symptoms = [(''SYMPT0001'', ''Fever''), (''SYMPT0002'', ''Cough'')],
      business_symptoms =
        [((1, ''SYMPT0001''), \<lparr>diagnostic = True, created_at = 5, updated_at = 5\<rparr>),
         ((1, ''SYMPT0002''), \<lparr>diagnostic = False, created_at = 5, updated_at = 5\<rparr>)]\<rparr>"

definition header_only :: "string list list" where
  "header_only = [[''Name'', ''Code'']]"



definition repeated_pair :: "string list list" where
  "repeated_pair =
     [expected_columns,
      [''1'', ''Acme'', ''SYMPT0001'', ''Fever'', ''true''],
      [''1'', ''Acme'', ''SYMPT0001'', ''Fever'', ''false'']]"

definition flipped :: "string list list" where
  "flipped =
     [expected_columns,
      [''1'', ''Acme'', ''SYMPT0001'', ''Fever'', ''no''],
      [''2'', ''Bolt'', ''SYMPT0001'', ''Fever'', ''yes'']]"

section \<open>Reading the diagnostic indicator\<close>

lemma lower_char_iff:
  assumes "plain y"
  shows "lower_char x = y \<longleftrightarrow> same_letter x y"
proof -
  define n :: nat where "n = of_char x"
  define m :: nat where "m = of_char y"
  have x: "x = char_of n" and y: "y = char_of m" by (simp_all add: n_def m_def)
  have lt: "n < 256" "m < 256" by (simp_all add: n_def m_def)
  have ceq: "\<And>j k :: nat. (char_of j :: char) = char_of k \<longleftrightarrow> j mod 256 = k mod 256"
    by (rule char_of_quasi_inj)
  have pl: "(97 \<le> m \<and> m \<le> 122) \<or> (48 \<le> m \<and> m \<le> 57)"
    using assms by (simp add: plain_def m_def)
  show ?thesis
    unfolding lower_char_def same_letter_def Let_def x y of_char_of ceq
    using lt pl by auto
qed

lemma lower_eq_iff:
  "list_all plain w \<Longrightarrow> lower t = w \<longleftrightarrow> caseless_eq t w"
  unfolding lower_def caseless_eq_def
proof (induction t arbitrary: w)
  case Nil
  then show ?case by auto
next
  case (Cons c t)
  then show ?case by (cases w) (auto simp: lower_char_iff)
qed

lemma truthy_iff: "truthy t \<longleftrightarrow> true_word t"
proof -
  have "list_all plain ''true''" "list_all plain ''1''" "list_all plain ''yes''"
    by (simp_all add: plain_def)
  then show ?thesis
    unfolding truthy_def true_word_def by (simp add: lower_eq_iff)
qed

text \<open>
  C8. Whatever string the diagnostic column of a row holds, the row is read as it
  would be with any other string there, and its flag is true exactly when the
  stripped string is "true", "1" or "yes" up to the case of its letters: no value of
  the column is rejected.
\<close>

theorem diagnostic_flag_parsed:
  assumes "parse_row (row(''Symptom Diagnostic'' \<mapsto> Some s0)) = Inr r0"
  shows "parse_row (row(''Symptom Diagnostic'' \<mapsto> Some s)) = Inr (r0\<lparr>diag := true_word (strip s)\<rparr>)"
  using assms
  by (auto simp: parse_row_def column_int_def column_strip_def truthy_iff
           split: sum.splits option.splits)

theorem diagnostic_flag_parsed_witness:
  "parse_row ((dict_row expected_columns [''7'', ''Acme'', ''S1'', ''Fever''])
      (''Symptom Diagnostic'' \<mapsto> Some ''maybe'')) =
     Inr \<lparr>biz_id = 7, biz_name = ''Acme'', sym_code = ''S1'', sym_name = ''Fever'', diag = False\<rparr>
   \<and> parse_row ((dict_row expected_columns [''7'', ''Acme'', ''S1'', ''Fever''])
      (''Symptom Diagnostic'' \<mapsto> Some '' YeS '')) =
     Inr \<lparr>biz_id = 7, biz_name = ''Acme'', sym_code = ''S1'', sym_name = ''Fever'', diag = True\<rparr>"
proof -
  have h: "parse_row ((dict_row expected_columns [''7'', ''Acme'', ''S1'', ''Fever''])
      (''Symptom Diagnostic'' \<mapsto> Some ''maybe'')) =
     Inr \<lparr>biz_id = 7, biz_name = ''Acme'', sym_code = ''S1'', sym_name = ''Fever'', diag = False\<rparr>"
    by code_simp
  have t: "true_word (strip '' YeS '')" by code_simp
  show ?thesis
    using h t diagnostic_flag_parsed [OF h, of "'' YeS ''"] by simp
qed

section \<open>The row counter\<close>

lemma import_loop_row_count:
  "import_loop d rows st = Inr st' \<Longrightarrow> row_count st' = row_count st + length rows"
proof (induction rows arbitrary: st)
  case Nil
  then show ?case by simp
next
  case (Cons row rows)
  then show ?case
    by (auto simp: import_row_def upsert_link_def upsert_symptom_def upsert_business_def
             split: sum.splits)
qed

lemma length_DictReader:
  "length (DictReader file) = length (filter (\<lambda>r. r \<noteq> []) (tl file))"
  by (cases "file") simp_all

lemma flush_nothing: "flush ok upd ins \<lparr>identity_map = [], pending = []\<rparr> t = Inr t"
  by (simp add: flush_def dirty_def)

lemma commit_fresh_session: "commit eng now SessionLocal d = Inr d"
  by (simp add: commit_def SessionLocal_def flush_nothing)

text \<open>
  C9. An import that succeeds reports as \<open>rows_processed\<close> the number of data rows
  of the input (the non-empty records after the header), with the status of a
  success; an input with no data row succeeds with a count of zero and leaves the
  tables as they were.
\<close>

theorem rows_processed_counts_rows:
  "(import_business_symptoms eng now file d = (Inr resp, d') \<longrightarrow>
      rows_processed resp = length (filter (\<lambda>r. r \<noteq> []) (tl file)) \<and>
      status resp = ''import complete'') \<and>
   (filter (\<lambda>r. r \<noteq> []) (tl file) = [] \<longrightarrow>
      import_business_symptoms eng now file d =
        (Inr \<lparr>status = ''import complete'', rows_processed = 0\<rparr>, d))"
proof (intro conjI impI)
  assume a: "import_business_symptoms eng now file d = (Inr resp, d')"
  then obtain st where st: "import_loop d (DictReader file) import_start = Inr st"
    and resp: "resp = \<lparr>status = ''import complete'', rows_processed = row_count st\<rparr>"
    by (auto simp: import_business_symptoms_def split: sum.splits)
  from import_loop_row_count[OF st] resp
  show "rows_processed resp = length (filter (\<lambda>r. r \<noteq> []) (tl file))"
    by (simp add: import_start_def length_DictReader)
  from resp show "status resp = ''import complete''" by simp
next
  assume "filter (\<lambda>r. r \<noteq> []) (tl file) = []"
  then have "DictReader file = []" by (cases "file") simp_all
  then show "import_business_symptoms eng now file d =
        (Inr \<lparr>status = ''import complete'', rows_processed = 0\<rparr>, d)"
    by (simp add: import_business_symptoms_def import_start_def commit_fresh_session)
qed

theorem rows_processed_counts_rows_witness:
  "import_business_symptoms accept_all 5 two_rows empty_db =
     (Inr \<lparr>status = ''import complete'', rows_processed = 2\<rparr>, acme_db)
   \<and> length (filter (\<lambda>r. r \<noteq> []) (tl two_rows)) = 2
   \<and> filter (\<lambda>r. r \<noteq> []) (tl header_only) = []
   \<and> import_business_symptoms accept_all 5 header_only empty_db =
     (Inr \<lparr>status = ''import complete'', rows_processed = 0\<rparr>, empty_db)"
proof -
  have a: "import_business_symptoms accept_all 5 two_rows empty_db =
     (Inr \<lparr>status = ''import complete'', rows_processed = 2\<rparr>, acme_db)"
    by code_simp
  have b: "filter (\<lambda>r. r \<noteq> []) (tl header_only) = []"
    by (simp add: header_only_def)
  show ?thesis
    using a b
      rows_processed_counts_rows [of accept_all 5 two_rows empty_db
        "\<lparr>status = ''import complete'', rows_processed = 2\<rparr>" acme_db]
      rows_processed_counts_rows [of accept_all 5 header_only empty_db]
    by simp
qed

section \<open>The query\<close>

lemma joined_join_row: "joined d = List.map_filter (join_row d) (business_symptoms d)"
  unfolding joined_def join_row_def
  by (rule arg_cong[where f = "\<lambda>f. List.map_filter f (business_symptoms d)"])
     (auto simp: fun_eq_iff split: option.splits)

lemma read_filter:
  "read_business_symptoms b g d =
     (if filter (out_matches b g) (joined d) = [] then Inl (HTTPException 404)
      else Inr (filter (out_matches b g) (joined d)))"
proof -
  have m: "out_matches b g =
      (\<lambda>x. (case b of None \<Rightarrow> True | Some i \<Rightarrow> business_id x = i) \<and>
           (case g of None \<Rightarrow> True | Some y \<Rightarrow> out_diagnostic x = y))"
    by (simp add: fun_eq_iff out_matches_def)
  show ?thesis
    unfolding m by (cases b; cases g) (simp_all add: read_business_symptoms_def Let_def)
qed

lemma join_row_matches:
  "join_row d l = Some x \<Longrightarrow> out_matches b g x = link_matches b g l"
  by (auto simp: join_row_def out_matches_def link_matches_def split: option.splits)

lemma filter_joined:
  "filter (out_matches b g) (List.map_filter (join_row d) ls) =
   List.map_filter (join_row d) (filter (link_matches b g) ls)"
  by (induction ls) (auto simp: List.map_filter_simps join_row_matches split: option.splits)

lemma map_filter_enrich:
  "list_all (\<lambda>l. map_of (businesses d) (fst (fst l)) \<noteq> None \<and>
                    map_of (symptoms d) (snd (fst l)) \<noteq> None) ls \<Longrightarrow>
   List.map_filter (join_row d) ls = map (enrich d) ls"
  by (induction ls) (auto simp: List.map_filter_simps join_row_def enrich_def split: option.splits)

lemma list_all_filter: "list_all P xs \<Longrightarrow> list_all P (filter Q xs)"
  by (induction xs) auto

text \<open>
  C4. A query whose filters no persisted link row satisfies fails with the HTTP
  status 404, the specification's NotFound; it does not return an empty list.
\<close>

theorem no_match_is_not_found:
  assumes "filter (link_matches b g) (business_symptoms d) = []"
  shows "read_business_symptoms b g d = Inl (HTTPException 404) \<and>
         failure_of (HTTPException 404) = NotFound"
  using assms by (simp add: read_filter joined_join_row filter_joined List.map_filter_simps)

theorem no_match_is_not_found_witness:
  "filter (link_matches (Some 99) None) (business_symptoms acme_db) = []
   \<and> read_business_symptoms (Some 99) None acme_db = Inl (HTTPException 404)
   \<and> failure_of (HTTPException 404) = NotFound"
proof -
  have h: "filter (link_matches (Some 99) None) (business_symptoms acme_db) = []"
    by code_simp
  show ?thesis
    using h no_match_is_not_found [OF h] by simp
qed

text \<open>
  C6. On tables with referential integrity, the rows a query returns are the link
  rows that satisfy every filter given, each with the names of its business and its
  symptom; an absent filter excludes nothing, and every returned row has the
  business id and the diagnostic flag asked for.
\<close>

theorem query_returns_matching_links:
  assumes "ref_integrity d" and "read_business_symptoms b g d = Inr rows"
  shows "rows = map (enrich d) (filter (link_matches b g) (business_symptoms d)) \<and>
         list_all (out_matches b g) rows"
proof -
  from assms(2) have rows: "rows = filter (out_matches b g) (joined d)"
    by (simp add: read_filter split: if_splits)
  have "list_all (\<lambda>l. map_of (businesses d) (fst (fst l)) \<noteq> None \<and>
                    map_of (symptoms d) (snd (fst l)) \<noteq> None)
          (filter (link_matches b g) (business_symptoms d))"
    using assms(1) unfolding ref_integrity_def by (rule list_all_filter)
  then have "rows = map (enrich d) (filter (link_matches b g) (business_symptoms d))"
    unfolding rows joined_join_row filter_joined by (rule map_filter_enrich)
  moreover have "list_all (out_matches b g) rows"
    unfolding rows by (simp add: list_all_iff)
  ultimately show ?thesis by simp
qed

theorem query_returns_matching_links_witness:
  "ref_integrity acme_db
   \<and> read_business_symptoms (Some 1) (Some True) acme_db =
       Inr [\<lparr>business_id = 1, business_name = ''Acme'', symptom_code = ''SYMPT0001'',
             symptom_name = ''Fever'', out_diagnostic = True\<rparr>]
   \<and> map (enrich acme_db) (filter (link_matches (Some 1) (Some True)) (business_symptoms acme_db)) =
       [\<lparr>business_id = 1, business_name = ''Acme'', symptom_code = ''SYMPT0001'',
         symptom_name = ''Fever'', out_diagnostic = True\<rparr>]
   \<and> list_all (out_matches (Some 1) (Some True))
       [\<lparr>business_id = 1, business_name = ''Acme'', symptom_code = ''SYMPT0001'',
         symptom_name = ''Fever'', out_diagnostic = True\<rparr>]"
proof -
  have h1: "ref_integrity acme_db" by code_simp
  have h2: "read_business_symptoms (Some 1) (Some True) acme_db =
       Inr [\<lparr>business_id = 1, business_name = ''Acme'', symptom_code = ''SYMPT0001'',
             symptom_name = ''Fever'', out_diagnostic = True\<rparr>]"
    by code_simp
  note t = query_returns_matching_links [OF h1 h2]
  show ?thesis
    using h1 h2 t [THEN conjunct1, symmetric] t [THEN conjunct2] by simp
qed

section \<open>Failures of the import\<close>















section \<open>The session and the flush\<close>

lemma map_of_set_value:
  "map_of (set_value k v objs) k' =
     (if k' = k then map_option (\<lambda>(c, w). (c, v)) (map_of objs k') else map_of objs k')"
  by (induction objs) (auto simp: set_value_def)

lemma keys_set_value: "map fst (set_value k v objs) = map fst objs"
  by (induction objs) (auto simp: set_value_def)

lemma map_of_snoc:
  "map_of (xs @ [(k, v)]) k' = (case map_of xs k' of Some w \<Rightarrow> Some w | None \<Rightarrow> if k' = k then Some v else None)"
  by (induction xs) auto

lemma staged_merge:
  "staged (merge load k v u) k' = (if k' = k then Some v else staged u k')"
  by (auto simp: staged_def merge_def map_of_set_value map_of_snoc split: option.splits)

lemma consistent_merge:
  assumes "consistent load u"
  shows "consistent load (merge load k v u)"
proof (cases "map_of (identity_map u) k")
  case None
  then have "k \<notin> fst ` set (identity_map u)" by (simp add: map_of_eq_None_iff)
  with assms None show ?thesis
    by (auto simp: consistent_def merge_def split: option.splits)
next
  case (Some a)
  have "list_all (\<lambda>(k, c, v). load k = Some c) objs \<Longrightarrow>
        list_all (\<lambda>(k, c, v). load k = Some c) (set_value k v objs)" for objs
    by (induction objs) (auto simp: set_value_def split: if_splits)
  with assms Some show ?thesis
    by (auto simp: consistent_def merge_def keys_set_value)
qed

lemma pending_merge_loaded: "load k \<noteq> None \<Longrightarrow> pending (merge load k v u) = pending u"
  by (auto simp: merge_def split: option.splits)

lemma keys_sql_update: "map fst (sql_update k f t) = map fst t"
  by (induction t) (auto simp: sql_update_def)

lemma keys_fold_update: "map fst (fold (\<lambda>(k, v). sql_update k (upd v)) us t) = map fst t"
  by (induction us arbitrary: t) (auto simp: keys_sql_update)

lemma run_updates_eq:
  "run_updates ok upd us t =
     (if list_all (\<lambda>(k, v). ok k v) us then Inr (fold (\<lambda>(k, v). sql_update k (upd v)) us t)
      else Inl DBAPIError)"
  by (induction us arbitrary: t) auto

lemma run_inserts_eq:
  "run_inserts ok ins ps t =
     (if list_all (\<lambda>(k, v). ok k v) ps \<and> distinct (map fst ps) \<and> fst ` set ps \<inter> fst ` set t = {}
      then Inr (t @ map (\<lambda>(k, v). (k, ins v)) ps)
      else Inl DBAPIError)"
proof (induction ps arbitrary: t)
  case Nil
  then show ?case by simp
next
  case (Cons p ps)
  obtain k v where p: "p = (k, v)" by (cases p)
  show ?case unfolding p by (auto simp: Cons.IH image_iff)
qed

lemma flush_eq:
  "flush ok upd ins u t = (if flushable ok u t then Inr (written upd ins u t) else Inl DBAPIError)"
proof -
  have "fst ` set (fold (\<lambda>(k, v). sql_update k (upd v)) (dirty (identity_map u)) t) = fst ` set t"
    using keys_fold_update[of upd "dirty (identity_map u)" t] by (metis set_map)
  then show ?thesis
    by (simp add: flush_def run_updates_eq run_inserts_eq flushable_def written_def)
qed

lemma map_of_sql_update:
  "map_of (sql_update k f t) k' = (if k' = k then map_option f (map_of t k') else map_of t k')"
  by (induction t) (auto simp: sql_update_def)

lemma map_of_fold_update:
  "distinct (map fst us) \<Longrightarrow>
   map_of (fold (\<lambda>(k, v). sql_update k (upd v)) us t) k' =
     (case map_of us k' of Some v \<Rightarrow> map_option (upd v) (map_of t k') | None \<Rightarrow> map_of t k')"
proof (induction us arbitrary: t)
  case Nil
  then show ?case by simp
next
  case (Cons p us)
  obtain k v where p: "p = (k, v)" by (cases p)
  from Cons.prems p have "map_of us k = None" by (simp add: map_of_eq_None_iff)
  with Cons p show ?case
    by (auto simp: map_of_sql_update split: option.splits)
qed

lemma keys_dirty: "distinct (map fst objs) \<Longrightarrow> distinct (map fst (dirty objs))"
  by (induction objs) (auto simp: dirty_def image_iff)

lemma map_of_dirty:
  "distinct (map fst objs) \<Longrightarrow>
   map_of (dirty objs) k =
     (case map_of objs k of Some (c, v) \<Rightarrow> if c \<noteq> v then Some v else None | None \<Rightarrow> None)"
proof (induction objs)
  case Nil
  then show ?case by (simp add: dirty_def)
next
  case (Cons p objs)
  obtain k' c v where p: "p = (k', c, v)" by (cases p)
  from Cons.prems p have n: "map_of objs k' = None" by (simp add: map_of_eq_None_iff)
  have d: "dirty (p # objs) = (if c \<noteq> v then (k', v) # dirty objs else dirty objs)"
    by (simp add: dirty_def p)
  from Cons p n show ?case unfolding d by (auto split: option.splits)
qed

lemma map_of_rev_distinct: "distinct (map fst xs) \<Longrightarrow> map_of (rev xs) k = map_of xs k"
proof (induction xs)
  case Nil
  then show ?case by simp
next
  case (Cons p xs)
  obtain k' v where p: "p = (k', v)" by (cases p)
  from Cons.prems p have "map_of xs k' = None" by (simp add: map_of_eq_None_iff)
  with Cons p show ?case by (auto simp: map_add_def split: option.splits)
qed

section \<open>What an import persists\<close>

lemma written_staged:
  assumes c: "consistent (\<lambda>k. map_option get (map_of t k)) u"
    and f: "flushable ok u t"
    and s: "staged u k = Some v"
  shows "map_of (written upd ins u t) k =
           (case map_of t k of
              Some r \<Rightarrow> Some (if get r = v then r else upd v r)
            | None \<Rightarrow> Some (ins v))"
proof -
  let ?t1 = "fold (\<lambda>(k, v). sql_update k (upd v)) (dirty (identity_map u)) t"
  from c have di: "distinct (map fst (identity_map u))" by (simp add: consistent_def)
  have w: "map_of (written upd ins u t) k =
      (case map_of ?t1 k of Some r \<Rightarrow> Some r | None \<Rightarrow> map_option ins (map_of (pending u) k))"
    by (simp add: written_def map_add_def map_of_map split: option.splits)
  have t1: "map_of ?t1 k =
      (case map_of (dirty (identity_map u)) k of
         Some v \<Rightarrow> map_option (upd v) (map_of t k) | None \<Rightarrow> map_of t k)"
    by (rule map_of_fold_update) (rule keys_dirty[OF di])
  show ?thesis
  proof (cases "map_of (identity_map u) k")
    case None
    with s have "map_of (rev (pending u)) k = Some v" by (simp add: staged_def)
    moreover from f have "distinct (map fst (pending u))" by (simp add: flushable_def)
    ultimately have p: "map_of (pending u) k = Some v" by (simp add: map_of_rev_distinct)
    then have "(k, v) \<in> set (pending u)" by (rule map_of_SomeD)
    with c have "map_of t k = None" by (auto simp: consistent_def list_all_iff)
    with None p show ?thesis by (simp add: w t1 map_of_dirty[OF di])
  next
    case (Some a)
    obtain c' v' where a: "a = (c', v')" by (cases a)
    with s Some have v: "v' = v" by (simp add: staged_def)
    from Some a have "(k, c', v') \<in> set (identity_map u)" by (auto dest: map_of_SomeD)
    with c have "map_option get (map_of t k) = Some c'" by (auto simp: consistent_def list_all_iff)
    then obtain r where r: "map_of t k = Some r" "get r = c'" by auto
    with Some a v show ?thesis by (simp add: w t1 map_of_dirty[OF di])
  qed
qed

lemma commit_eq:
  "commit eng now s d =
     (if flushable (business_ok eng) (business_objs s) (businesses d) \<and>
         flushable (symptom_ok eng) (symptom_objs s) (symptoms d) \<and>
         flushable (link_ok eng) (link_objs s) (business_symptoms d)
      then Inr \<lparr>businesses = written (\<lambda>v r. v) (\<lambda>v. v) (business_objs s) (businesses d),
                symptoms = written (\<lambda>v r. v) (\<lambda>v. v) (symptom_objs s) (symptoms d),
                business_symptoms =
                  written (\<lambda>v r. r\<lparr>diagnostic := v, updated_at := now\<rparr>)
                    (\<lambda>v. \<lparr>diagnostic = v, created_at = now, updated_at = now\<rparr>)
                    (link_objs s) (business_symptoms d)\<rparr>
      else Inl DBAPIError)"
  by (simp add: commit_def flush_eq)

lemma import_row_stage:
  "import_row d row st = (case parse_row row of Inl e \<Rightarrow> Inl e | Inr r \<Rightarrow> Inr (stage d r st))"
  by (simp add: import_row_def stage_def split: sum.splits)

lemma import_loop_fold:
  "import_loop d rows st = Inr st' \<Longrightarrow> st' = fold (stage d) (parsed rows) st"
proof (induction rows arbitrary: st)
  case Nil
  then show ?case by (simp add: parsed_def List.map_filter_simps)
next
  case (Cons row rows)
  then show ?case
    by (cases "parse_row row")
       (auto simp: import_row_stage parsed_def List.map_filter_simps)
qed

lemma stage_business_objs:
  "business_objs (session_of (stage d r st)) =
     (if biz_id r \<notin> seen_businesses st
      then merge (map_of (businesses d)) (biz_id r) (biz_name r) (business_objs (session_of st))
      else business_objs (session_of st))"
  by (simp add: stage_def upsert_link_def upsert_symptom_def upsert_business_def
        merge_Business_def merge_Symptom_def merge_BusinessSymptom_def)

lemma stage_seen_businesses:
  "seen_businesses (stage d r st) = insert (biz_id r) (seen_businesses st)"
  by (auto simp: stage_def upsert_link_def upsert_symptom_def upsert_business_def)

lemma stage_symptom_objs:
  "symptom_objs (session_of (stage d r st)) =
     (if sym_code r \<notin> seen_symptoms st
      then merge (map_of (symptoms d)) (sym_code r) (sym_name r) (symptom_objs (session_of st))
      else symptom_objs (session_of st))"
  by (simp add: stage_def upsert_link_def upsert_symptom_def upsert_business_def
        merge_Business_def merge_Symptom_def merge_BusinessSymptom_def)

lemma stage_seen_symptoms:
  "seen_symptoms (stage d r st) = insert (sym_code r) (seen_symptoms st)"
  by (auto simp: stage_def upsert_link_def upsert_symptom_def upsert_business_def)

lemma stage_link_objs:
  "link_objs (session_of (stage d r st)) =
     merge (load_link d) (link_key r) (diag r) (link_objs (session_of st))"
proof -
  have "load_link d = (\<lambda>k. map_option diagnostic (map_of (business_symptoms d) k))"
    by (simp add: fun_eq_iff load_link_def)
  then show ?thesis
    by (simp add: stage_def upsert_link_def upsert_symptom_def upsert_business_def
        merge_Business_def merge_Symptom_def merge_BusinessSymptom_def link_key_def)
qed

lemma staged_business_fold:
  "staged (business_objs (session_of (fold (stage d) rs st))) b =
     (if b \<in> seen_businesses st then staged (business_objs (session_of st)) b
      else case find (\<lambda>r. biz_id r = b) rs of
             Some r \<Rightarrow> Some (biz_name r)
           | None \<Rightarrow> staged (business_objs (session_of st)) b)"
proof (induction rs arbitrary: st)
  case Nil
  then show ?case by simp
next
  case (Cons r rs)
  show ?case
    by (auto simp: Cons.IH stage_business_objs stage_seen_businesses staged_merge
             split: option.splits)
qed

lemma staged_symptom_fold:
  "staged (symptom_objs (session_of (fold (stage d) rs st))) c =
     (if c \<in> seen_symptoms st then staged (symptom_objs (session_of st)) c
      else case find (\<lambda>r. sym_code r = c) rs of
             Some r \<Rightarrow> Some (sym_name r)
           | None \<Rightarrow> staged (symptom_objs (session_of st)) c)"
proof (induction rs arbitrary: st)
  case Nil
  then show ?case by simp
next
  case (Cons r rs)
  show ?case
    by (auto simp: Cons.IH stage_symptom_objs stage_seen_symptoms staged_merge
             split: option.splits)
qed

lemma find_snoc:
  "find P (xs @ [x]) = (case find P xs of Some y \<Rightarrow> Some y | None \<Rightarrow> if P x then Some x else None)"
  by (induction xs) auto

lemma staged_link_fold:
  "staged (link_objs (session_of (fold (stage d) rs st))) p =
     (case find (\<lambda>r. link_key r = p) (rev rs) of
        Some r \<Rightarrow> Some (diag r)
      | None \<Rightarrow> staged (link_objs (session_of st)) p)"
proof (induction rs arbitrary: st)
  case Nil
  then show ?case by simp
next
  case (Cons r rs)
  show ?case
    by (auto simp: Cons.IH stage_link_objs staged_merge find_snoc split: option.splits)
qed

lemma consistent_fold:
  assumes "consistent (map_of (businesses d)) (business_objs (session_of st))"
    and "consistent (map_of (symptoms d)) (symptom_objs (session_of st))"
    and "consistent (load_link d) (link_objs (session_of st))"
  shows "consistent (map_of (businesses d)) (business_objs (session_of (fold (stage d) rs st))) \<and>
         consistent (map_of (symptoms d)) (symptom_objs (session_of (fold (stage d) rs st))) \<and>
         consistent (load_link d) (link_objs (session_of (fold (stage d) rs st)))"
  using assms
proof (induction rs arbitrary: st)
  case Nil
  then show ?case by simp
next
  case (Cons r rs)
  show ?case
    unfolding fold_simps
    by (rule Cons.IH)
       (simp_all add: stage_business_objs stage_symptom_objs stage_link_objs consistent_merge Cons.prems)
qed

lemma consistent_start:
  "consistent (map_of (businesses d)) (business_objs (session_of import_start))"
  "consistent (map_of (symptoms d)) (symptom_objs (session_of import_start))"
  "consistent (load_link d) (link_objs (session_of import_start))"
  by (simp_all add: consistent_def import_start_def SessionLocal_def)

lemma pending_fold:
  assumes "list_all (\<lambda>r. map_of (businesses d) (biz_id r) \<noteq> None \<and>
                          map_of (symptoms d) (sym_code r) \<noteq> None \<and>
                          load_link d (link_key r) \<noteq> None) rs"
  shows "pending (business_objs (session_of (fold (stage d) rs st))) = pending (business_objs (session_of st)) \<and>
         pending (symptom_objs (session_of (fold (stage d) rs st))) = pending (symptom_objs (session_of st)) \<and>
         pending (link_objs (session_of (fold (stage d) rs st))) = pending (link_objs (session_of st))"
  using assms
proof (induction rs arbitrary: st)
  case Nil
  then show ?case by simp
next
  case (Cons r rs)
  from Cons.prems have "list_all (\<lambda>r. map_of (businesses d) (biz_id r) \<noteq> None \<and>
                          map_of (symptoms d) (sym_code r) \<noteq> None \<and>
                          load_link d (link_key r) \<noteq> None) rs" by simp
  from Cons.IH[OF this, of "stage d r st"] Cons.prems show ?case
    by (simp add: stage_business_objs stage_symptom_objs stage_link_objs pending_merge_loaded)
qed

lemma import_loop_any_store:
  "import_loop d rows st = Inr st' \<Longrightarrow> import_loop d' rows st2 = Inr (fold (stage d') (parsed rows) st2)"
proof (induction rows arbitrary: st st2)
  case Nil
  then show ?case by (simp add: parsed_def List.map_filter_simps)
next
  case (Cons row rows)
  then show ?case
    by (cases "parse_row row")
       (auto simp: import_row_stage parsed_def List.map_filter_simps)
qed

lemma row_count_fold: "row_count (fold (stage d) rs st) = row_count st + length rs"
  by (induction rs arbitrary: st)
     (auto simp: stage_def upsert_link_def upsert_symptom_def upsert_business_def)

lemma import_success:
  assumes "import_business_symptoms eng now file d = (Inr resp, d')"
  shows "import_loop d (DictReader file) import_start = Inr (fold (stage d) (batch file) import_start)"
    and "flushable (business_ok eng)
           (business_objs (session_of (fold (stage d) (batch file) import_start))) (businesses d)"
    and "flushable (symptom_ok eng)
           (symptom_objs (session_of (fold (stage d) (batch file) import_start))) (symptoms d)"
    and "flushable (link_ok eng)
           (link_objs (session_of (fold (stage d) (batch file) import_start))) (business_symptoms d)"
    and "businesses d' = written (\<lambda>v r. v) (\<lambda>v. v)
           (business_objs (session_of (fold (stage d) (batch file) import_start))) (businesses d)"
    and "symptoms d' = written (\<lambda>v r. v) (\<lambda>v. v)
           (symptom_objs (session_of (fold (stage d) (batch file) import_start))) (symptoms d)"
    and "business_symptoms d' =
           written (\<lambda>v r. r\<lparr>diagnostic := v, updated_at := now\<rparr>)
             (\<lambda>v. \<lparr>diagnostic = v, created_at = now, updated_at = now\<rparr>)
             (link_objs (session_of (fold (stage d) (batch file) import_start))) (business_symptoms d)"
    and "resp = \<lparr>status = ''import complete'', rows_processed = length (batch file)\<rparr>"
proof -
  from assms obtain st where st: "import_loop d (DictReader file) import_start = Inr st"
    by (auto simp: import_business_symptoms_def split: sum.splits)
  from import_loop_fold[OF st] have e: "st = fold (stage d) (batch file) import_start"
    by (simp add: batch_def)
  from st e show "import_loop d (DictReader file) import_start = Inr (fold (stage d) (batch file) import_start)"
    by simp
  from assms st e have c: "commit eng now (session_of (fold (stage d) (batch file) import_start)) d = Inr d'"
    and r: "resp = \<lparr>status = ''import complete'', rows_processed = row_count st\<rparr>"
    by (auto simp: import_business_symptoms_def split: sum.splits)
  from c show "flushable (business_ok eng)
           (business_objs (session_of (fold (stage d) (batch file) import_start))) (businesses d)"
    by (simp add: commit_eq split: if_splits)
  from c show "flushable (symptom_ok eng)
           (symptom_objs (session_of (fold (stage d) (batch file) import_start))) (symptoms d)"
    by (simp add: commit_eq split: if_splits)
  from c show "flushable (link_ok eng)
           (link_objs (session_of (fold (stage d) (batch file) import_start))) (business_symptoms d)"
    by (simp add: commit_eq split: if_splits)
  from c show "businesses d' = written (\<lambda>v r. v) (\<lambda>v. v)
           (business_objs (session_of (fold (stage d) (batch file) import_start))) (businesses d)"
    by (auto simp: commit_eq split: if_splits)
  from c show "symptoms d' = written (\<lambda>v r. v) (\<lambda>v. v)
           (symptom_objs (session_of (fold (stage d) (batch file) import_start))) (symptoms d)"
    by (auto simp: commit_eq split: if_splits)
  from c show "business_symptoms d' =
           written (\<lambda>v r. r\<lparr>diagnostic := v, updated_at := now\<rparr>)
             (\<lambda>v. \<lparr>diagnostic = v, created_at = now, updated_at = now\<rparr>)
             (link_objs (session_of (fold (stage d) (batch file) import_start))) (business_symptoms d)"
    by (auto simp: commit_eq split: if_splits)
  from r e show "resp = \<lparr>status = ''import complete'', rows_processed = length (batch file)\<rparr>"
    by (simp add: row_count_fold import_start_def)
qed

lemma staged_start:
  "staged (business_objs (session_of import_start)) b = None"
  "staged (symptom_objs (session_of import_start)) c = None"
  "staged (link_objs (session_of import_start)) p = None"
  by (simp_all add: staged_def import_start_def SessionLocal_def)

lemma seen_start: "seen_businesses import_start = {}" "seen_symptoms import_start = {}"
  by (simp_all add: import_start_def)

lemma business_after_import:
  assumes i: "import_business_symptoms eng now file d = (Inr resp, d')"
    and f: "find (\<lambda>r. biz_id r = b) (batch file) = Some r"
  shows "map_of (businesses d') b = Some (biz_name r)"
proof -
  let ?u = "business_objs (session_of (fold (stage d) (batch file) import_start))"
  have s: "staged ?u b = Some (biz_name r)"
    by (simp add: staged_business_fold seen_start f)
  have c: "consistent (\<lambda>k. map_option (\<lambda>x. x) (map_of (businesses d) k)) ?u"
    using consistent_fold[where d = d and st = import_start and rs = "batch file", OF consistent_start] by (simp add: option.map_ident)
  from written_staged[OF c import_success(2)[OF i] s, of "\<lambda>v r. v" "\<lambda>v. v"]
  show ?thesis
    unfolding import_success(5)[OF i] by (simp split: option.splits)
qed

lemma symptom_after_import:
  assumes i: "import_business_symptoms eng now file d = (Inr resp, d')"
    and f: "find (\<lambda>r. sym_code r = c) (batch file) = Some r"
  shows "map_of (symptoms d') c = Some (sym_name r)"
proof -
  let ?u = "symptom_objs (session_of (fold (stage d) (batch file) import_start))"
  have s: "staged ?u c = Some (sym_name r)"
    by (simp add: staged_symptom_fold seen_start f)
  have c: "consistent (\<lambda>k. map_option (\<lambda>x. x) (map_of (symptoms d) k)) ?u"
    using consistent_fold[where d = d and st = import_start and rs = "batch file", OF consistent_start] by (simp add: option.map_ident)
  from written_staged[OF c import_success(3)[OF i] s, of "\<lambda>v r. v" "\<lambda>v. v"]
  show ?thesis
    unfolding import_success(6)[OF i] by (simp split: option.splits)
qed

lemma link_after_import:
  assumes i: "import_business_symptoms eng now file d = (Inr resp, d')"
    and f: "find (\<lambda>r. link_key r = p) (rev (batch file)) = Some r"
  shows "map_of (business_symptoms d') p =
           (case map_of (business_symptoms d) p of
              Some l \<Rightarrow> Some (if diagnostic l = diag r then l
                               else l\<lparr>diagnostic := diag r, updated_at := now\<rparr>)
            | None \<Rightarrow> Some \<lparr>diagnostic = diag r, created_at = now, updated_at = now\<rparr>)"
proof -
  let ?u = "link_objs (session_of (fold (stage d) (batch file) import_start))"
  have s: "staged ?u p = Some (diag r)"
    by (simp add: staged_link_fold f)
  have c: "consistent (\<lambda>k. map_option diagnostic (map_of (business_symptoms d) k)) ?u"
    using consistent_fold[where d = d and st = import_start and rs = "batch file", OF consistent_start]
    by (simp add: load_link_def[abs_def])
  from written_staged[OF c import_success(4)[OF i] s]
  show ?thesis
    unfolding import_success(7)[OF i] by simp
qed

text \<open>
  C1, as the code has it. After a successful import the persisted name of a business
  that occurs in the batch is the name in the first row of the batch with that id,
  and the persisted name of a symptom is the name in the first row with that code:
  later rows of a key already seen schedule no write.
\<close>

theorem first_occurrence_wins:
  assumes "import_business_symptoms eng now file d = (Inr resp, d')"
  shows "(find (\<lambda>r. biz_id r = b) (batch file) = Some r \<longrightarrow>
            map_of (businesses d') b = Some (biz_name r)) \<and>
         (find (\<lambda>r. sym_code r = c) (batch file) = Some r' \<longrightarrow>
            map_of (symptoms d') c = Some (sym_name r'))"
  using business_after_import[OF assms] symptom_after_import[OF assms] by blast

theorem first_occurrence_wins_witness:
  "import_business_symptoms accept_all 5 two_rows empty_db =
     (Inr \<lparr>status = ''import complete'', rows_processed = 2\<rparr>, acme_db)
   \<and> find (\<lambda>r. biz_id r = 1) (batch two_rows) =
       Some \<lparr>biz_id = 1, biz_name = ''Acme'', sym_code = ''SYMPT0001'', sym_name = ''Fever'', diag = True\<rparr>
   \<and> map_of (businesses acme_db) 1 = Some ''Acme''
   \<and> find (\<lambda>r. sym_code r = ''SYMPT0002'') (batch two_rows) =
       Some \<lparr>biz_id = 1, biz_name = ''Acme Corp'', sym_code = ''SYMPT0002'', sym_name = ''Cough'', diag = False\<rparr>
   \<and> map_of (symptoms acme_db) ''SYMPT0002'' = Some ''Cough''"
proof -
  have h: "import_business_symptoms accept_all 5 two_rows empty_db =
     (Inr \<lparr>status = ''import complete'', rows_processed = 2\<rparr>, acme_db)"
    by code_simp
  have f1: "find (\<lambda>r. biz_id r = 1) (batch two_rows) =
       Some \<lparr>biz_id = 1, biz_name = ''Acme'', sym_code = ''SYMPT0001'', sym_name = ''Fever'', diag = True\<rparr>"
    by code_simp
  have f2: "find (\<lambda>r. sym_code r = ''SYMPT0002'') (batch two_rows) =
       Some \<lparr>biz_id = 1, biz_name = ''Acme Corp'', sym_code = ''SYMPT0002'', sym_name = ''Cough'', diag = False\<rparr>"
    by code_simp
  show ?thesis
    using h f1 f2 first_occurrence_wins [OF h, of 1 _ "''SYMPT0002''"] by simp
qed

text \<open>
  The claim C1 as written fails: business 1 occurs twice, as "Acme" and then as
  "Acme Corp", and the persisted name is "Acme", not the name of the last row.
\<close>

theorem last_name_not_persisted_counterexample:
  "import_business_symptoms accept_all 5 two_rows empty_db =
     (Inr \<lparr>status = ''import complete'', rows_processed = 2\<rparr>, acme_db)
   \<and> find (\<lambda>r. biz_id r = 1) (rev (batch two_rows)) =
       Some \<lparr>biz_id = 1, biz_name = ''Acme Corp'', sym_code = ''SYMPT0002'', sym_name = ''Cough'', diag = False\<rparr>
   \<and> map_of (businesses acme_db) 1 = Some ''Acme''
   \<and> ''Acme'' \<noteq> ''Acme Corp''"
  by code_simp



section \<open>Importing twice\<close>

lemma import_failure:
  "import_business_symptoms eng now file d = (Inl e, d') \<Longrightarrow>
   import_business_symptoms eng now' file d = (Inl e, d)"
  by (auto simp: import_business_symptoms_def commit_eq split: sum.splits if_splits)

lemma dirty_clean:
  assumes c: "consistent load u"
    and p: "\<And>k v. staged u k = Some v \<Longrightarrow> load k = Some v"
  shows "dirty (identity_map u) = []"
proof -
  have "c' = v" if m: "(k, c', v) \<in> set (identity_map u)" for k c' v
  proof -
    from c have "distinct (map fst (identity_map u))" by (simp add: consistent_def)
    with m have "map_of (identity_map u) k = Some (c', v)" by simp
    then have "staged u k = Some v" by (simp add: staged_def)
    then have "load k = Some v" by (rule p)
    moreover from c m have "load k = Some c'" by (auto simp: consistent_def list_all_iff)
    ultimately show ?thesis by simp
  qed
  then have "filter (\<lambda>(k, c, v). c \<noteq> v) (identity_map u) = []"
    by (auto simp: filter_empty_conv)
  then show ?thesis by (simp add: dirty_def)
qed

lemma flushable_nothing:
  "dirty (identity_map u) = [] \<Longrightarrow> pending u = [] \<Longrightarrow> flushable ok u t"
  by (simp add: flushable_def)

lemma written_nothing:
  "dirty (identity_map u) = [] \<Longrightarrow> pending u = [] \<Longrightarrow> written upd ins u t = t"
  by (simp add: written_def)

lemma find_member: "x \<in> set xs \<Longrightarrow> P x \<Longrightarrow> \<exists>y. find P xs = Some y"
  by (cases "find P xs") (auto simp: find_None_iff)

lemma second_import_changes_nothing:
  assumes i: "import_business_symptoms eng now file d = (Inr resp, d1)"
  shows "import_business_symptoms eng now' file d1 = (Inr resp, d1)"
proof -
  let ?rs = "batch file"
  let ?st1 = "fold (stage d) ?rs import_start"
  let ?st2 = "fold (stage d1) ?rs import_start"
  have loop: "import_loop d1 (DictReader file) import_start = Inr ?st2"
    using import_loop_any_store[OF import_success(1)[OF i]] by (simp add: batch_def)
  have cons: "consistent (map_of (businesses d1)) (business_objs (session_of ?st2))"
    "consistent (map_of (symptoms d1)) (symptom_objs (session_of ?st2))"
    "consistent (load_link d1) (link_objs (session_of ?st2))"
    using consistent_fold[where d = d1 and st = import_start and rs = ?rs, OF consistent_start]
    by simp_all
  have pb: "map_of (businesses d1) b = Some v"
    if "staged (business_objs (session_of ?st2)) b = Some v" for b v
  proof -
    from that obtain r where "find (\<lambda>r. biz_id r = b) ?rs = Some r" "v = biz_name r"
      by (auto simp: staged_business_fold seen_start staged_start split: option.splits)
    with business_after_import[OF i] show ?thesis by simp
  qed
  have ps: "map_of (symptoms d1) c = Some v"
    if "staged (symptom_objs (session_of ?st2)) c = Some v" for c v
  proof -
    from that obtain r where "find (\<lambda>r. sym_code r = c) ?rs = Some r" "v = sym_name r"
      by (auto simp: staged_symptom_fold seen_start staged_start split: option.splits)
    with symptom_after_import[OF i] show ?thesis by simp
  qed
  have pl: "load_link d1 p = Some v"
    if "staged (link_objs (session_of ?st2)) p = Some v" for p v
  proof -
    from that obtain r where "find (\<lambda>r. link_key r = p) (rev ?rs) = Some r" "v = diag r"
      by (auto simp: staged_link_fold staged_start split: option.splits)
    with link_after_import[OF i] show ?thesis
      by (auto simp: load_link_def split: option.splits)
  qed
  have present: "list_all (\<lambda>r. map_of (businesses d1) (biz_id r) \<noteq> None \<and>
                          map_of (symptoms d1) (sym_code r) \<noteq> None \<and>
                          load_link d1 (link_key r) \<noteq> None) ?rs"
    unfolding list_all_iff
  proof (intro ballI conjI)
    fix r assume r: "r \<in> set ?rs"
    from find_member[of r ?rs "\<lambda>x. biz_id x = biz_id r"] r
    obtain y where "find (\<lambda>x. biz_id x = biz_id r) ?rs = Some y" by auto
    from business_after_import[OF i this]
    show "map_of (businesses d1) (biz_id r) \<noteq> None" by simp
    from find_member[of r ?rs "\<lambda>x. sym_code x = sym_code r"] r
    obtain y where "find (\<lambda>x. sym_code x = sym_code r) ?rs = Some y" by auto
    from symptom_after_import[OF i this]
    show "map_of (symptoms d1) (sym_code r) \<noteq> None" by simp
    from find_member[of r "rev ?rs" "\<lambda>x. link_key x = link_key r"] r
    obtain y where "find (\<lambda>x. link_key x = link_key r) (rev ?rs) = Some y" by auto
    from link_after_import[OF i this]
    show "load_link d1 (link_key r) \<noteq> None"
      by (auto simp: load_link_def split: option.splits)
  qed
  have pend: "pending (business_objs (session_of ?st2)) = []"
    "pending (symptom_objs (session_of ?st2)) = []"
    "pending (link_objs (session_of ?st2)) = []"
    using pending_fold[OF present, of import_start]
    by (simp_all add: import_start_def SessionLocal_def)
  have dirt: "dirty (identity_map (business_objs (session_of ?st2))) = []"
    "dirty (identity_map (symptom_objs (session_of ?st2))) = []"
    "dirty (identity_map (link_objs (session_of ?st2))) = []"
    using dirty_clean[OF cons(1) pb] dirty_clean[OF cons(2) ps] dirty_clean[OF cons(3) pl]
    by simp_all
  have "commit eng now' (session_of ?st2) d1 = Inr d1"
    by (simp add: commit_eq flushable_nothing written_nothing pend dirt)
  moreover have "row_count ?st2 = length ?rs"
    by (simp add: row_count_fold import_start_def)
  ultimately show ?thesis
    using loop import_success(8)[OF i] by (simp add: import_business_symptoms_def)
qed

text \<open>
  C5. Importing an upload a second time, at any later clock reading, leaves the
  tables exactly as the first import left them, and every query answers as it did
  after the first import.
\<close>

theorem import_idempotent:
  "snd (import_business_symptoms eng now2 file (snd (import_business_symptoms eng now1 file d))) =
     snd (import_business_symptoms eng now1 file d)
   \<and> read_business_symptoms b g
       (snd (import_business_symptoms eng now2 file (snd (import_business_symptoms eng now1 file d)))) =
     read_business_symptoms b g (snd (import_business_symptoms eng now1 file d))"
proof -
  obtain res d1 where r: "import_business_symptoms eng now1 file d = (res, d1)"
    by (cases "import_business_symptoms eng now1 file d")
  have "snd (import_business_symptoms eng now2 file d1) = d1"
  proof (cases res)
    case (Inl e)
    with r have "d1 = d" by (auto simp: import_business_symptoms_def split: sum.splits)
    with r Inl import_failure[of eng now1 "file" d e d1 now2] show ?thesis by simp
  next
    case (Inr resp)
    with r second_import_changes_nothing[of eng now1 "file" d resp d1 now2] show ?thesis by simp
  qed
  with r show ?thesis by simp
qed

theorem import_idempotent_witness:
  "snd (import_business_symptoms accept_all 9 flipped (snd (import_business_symptoms accept_all 7 flipped acme_db))) =
     snd (import_business_symptoms accept_all 7 flipped acme_db)
   \<and> read_business_symptoms None (Some True)
       (snd (import_business_symptoms accept_all 9 flipped (snd (import_business_symptoms accept_all 7 flipped acme_db)))) =
     read_business_symptoms None (Some True) (snd (import_business_symptoms accept_all 7 flipped acme_db))"
  using import_idempotent [of accept_all 9 flipped 7 acme_db None "Some True"] by simp

section \<open>A link key repeated in one upload\<close>

lemma import_commit_failure:
  "import_loop d (DictReader file) import_start = Inr st \<Longrightarrow>
   commit eng now (session_of st) d = Inl e \<Longrightarrow>
   import_business_symptoms eng now file d = (Inl e, d)"
  by (simp add: import_business_symptoms_def)

text \<open>
  C10. On empty tables, an upload whose two rows carry the same link key is not
  imported: both merges add a pending object, the commit is refused for the repeated
  primary key, whatever the store's column checks and the time, and no link is
  persisted.
\<close>

theorem repeated_new_pair_rejected:
  "import_business_symptoms eng now repeated_pair empty_db = (Inl DBAPIError, empty_db)"
proof -
  have l: "import_loop empty_db (DictReader repeated_pair) import_start =
      Inr (projr (import_loop empty_db (DictReader repeated_pair) import_start))"
    by code_simp
  have p: "map fst (pending (link_objs (session_of
      (projr (import_loop empty_db (DictReader repeated_pair) import_start))))) =
      [(1, ''SYMPT0001''), (1, ''SYMPT0001'')]"
    by code_simp
  have "\<not> flushable (link_ok eng) (link_objs (session_of
      (projr (import_loop empty_db (DictReader repeated_pair) import_start)))) (business_symptoms empty_db)"
    by (simp add: flushable_def p)
  then have c: "commit eng now (session_of
      (projr (import_loop empty_db (DictReader repeated_pair) import_start))) empty_db = Inl DBAPIError"
    by (simp add: commit_eq)
  show ?thesis by (rule import_commit_failure[OF l c])
qed

section \<open>Referential integrity is kept\<close>

text \<open>
  The hypothesis of the query theorem holds of every state the importer can reach
  from empty tables: an import, failed or not, leaves every link row with its
  business and its symptom.
\<close>

lemma keys_written: "map fst (written upd ins u t) = map fst t @ map fst (pending u)"
proof -
  have "map fst (map (\<lambda>(k, v). (k, ins v)) (pending u)) = map fst (pending u)"
    by (induction "pending u") auto
  then show ?thesis by (simp add: written_def keys_fold_update)
qed

lemma pending_keys_merge:
  "fst ` set (pending (merge load k v u)) \<subseteq> insert k (fst ` set (pending u))"
  by (auto simp: merge_def split: option.splits)

lemma pending_link_keys_fold:
  "fst ` set (pending (link_objs (session_of (fold (stage d) rs st)))) \<subseteq>
     link_key ` set rs \<union> fst ` set (pending (link_objs (session_of st)))"
proof (induction rs arbitrary: st)
  case Nil
  then show ?case by simp
next
  case (Cons r rs)
  from Cons.IH[of "stage d r st"] pending_keys_merge[of "load_link d" "link_key r" "diag r" "link_objs (session_of st)"]
  show ?case by (auto simp: stage_link_objs)
qed

lemma import_keeps_ref_integrity:
  assumes r: "ref_integrity d"
  shows "ref_integrity (snd (import_business_symptoms eng now file d))"
proof (cases "fst (import_business_symptoms eng now file d)")
  case (Inl e)
  then have "snd (import_business_symptoms eng now file d) = d"
    by (auto simp: import_business_symptoms_def split: sum.splits)
  with r show ?thesis by simp
next
  case (Inr resp)
  define d' where "d' = snd (import_business_symptoms eng now file d)"
  with Inr have i: "import_business_symptoms eng now file d = (Inr resp, d')"
    by (metis prod.collapse)
  let ?st = "fold (stage d) (batch file) import_start"
  have kb: "map fst (businesses d') = map fst (businesses d) @ map fst (pending (business_objs (session_of ?st)))"
    unfolding import_success(5)[OF i] by (rule keys_written)
  have ks: "map fst (symptoms d') = map fst (symptoms d) @ map fst (pending (symptom_objs (session_of ?st)))"
    unfolding import_success(6)[OF i] by (rule keys_written)
  have kl: "map fst (business_symptoms d') =
      map fst (business_symptoms d) @ map fst (pending (link_objs (session_of ?st)))"
    unfolding import_success(7)[OF i] by (rule keys_written)
  have "map_of (businesses d') (fst k) \<noteq> None \<and> map_of (symptoms d') (snd k) \<noteq> None"
    if k: "k \<in> fst ` set (business_symptoms d')" for k
  proof -
    from k kl have "k \<in> fst ` set (business_symptoms d) \<or>
        k \<in> fst ` set (pending (link_objs (session_of ?st)))"
      by (metis Un_iff set_append set_map)
    then show ?thesis
    proof
      assume "k \<in> fst ` set (business_symptoms d)"
      with r have "fst k \<in> fst ` set (businesses d)" "snd k \<in> fst ` set (symptoms d)"
        by (auto simp: ref_integrity_def list_all_iff map_of_eq_None_iff)
      then have "fst k \<in> set (map fst (businesses d'))" "snd k \<in> set (map fst (symptoms d'))"
        unfolding kb ks by auto
      then show ?thesis by (simp add: map_of_eq_None_iff)
    next
      assume "k \<in> fst ` set (pending (link_objs (session_of ?st)))"
      with pending_link_keys_fold[of d "batch file" import_start]
      obtain x where x: "x \<in> set (batch file)" "k = link_key x"
        by (auto simp: import_start_def SessionLocal_def)
      from find_member[of x "batch file" "\<lambda>y. biz_id y = biz_id x"] x
      obtain y where "find (\<lambda>y. biz_id y = biz_id x) (batch file) = Some y" by auto
      from business_after_import[OF i this] x
      have 1: "map_of (businesses d') (fst k) \<noteq> None" by (simp add: link_key_def)
      from find_member[of x "batch file" "\<lambda>y. sym_code y = sym_code x"] x
      obtain y where "find (\<lambda>y. sym_code y = sym_code x) (batch file) = Some y" by auto
      from symptom_after_import[OF i this] x
      have 2: "map_of (symptoms d') (snd k) \<noteq> None" by (simp add: link_key_def)
      from 1 2 show ?thesis by simp
    qed
  qed
  then show ?thesis
    unfolding d'_def[symmetric] ref_integrity_def list_all_iff by auto
qed

lemma ref_integrity_empty: "ref_integrity empty_db"
  by (simp add: ref_integrity_def empty_db_def)

end
